theory Spec2Isabelle
  imports Main "HOL-Library.Word"
begin

section \<open>Stepper motor controller (main.c)\<close>

text \<open>
  The firmware is written for an AVR microcontroller (\<^verbatim>\<open>avr/io.h\<close>), where
  \<^verbatim>\<open>int\<close> has 16 bits, \<^verbatim>\<open>uint16_t\<close> is \<^verbatim>\<open>unsigned int\<close> and
  \<^verbatim>\<open>int16_t\<close> is \<^verbatim>\<open>int\<close>. A 16-bit object is a \<open>16 word\<close>: \<open>unat\<close> reads it
  as \<^verbatim>\<open>uint16_t\<close>, \<open>sint\<close> reads it as \<^verbatim>\<open>int16_t\<close>, a conversion between the
  two keeps the bits, and arithmetic wraps modulo \<open>2 ^ 16\<close>, which is what the 16-bit
  subtract and negate instructions of the target do.
\<close>

subsection \<open>Command interpreter: the UART receive interrupt\<close>

text \<open>
  The file-scope objects \<^verbatim>\<open>m_received[7]\<close>, \<^verbatim>\<open>m_rx_index\<close>,
  \<^verbatim>\<open>m_stepper_delay\<close> and \<^verbatim>\<open>m_stepper_position\<close>. The buffer is a list of
  bytes, which has 7 elements in every state of the program (\<open>rx_ok\<close>).
\<close>

record uart_state =
  m_received :: "8 word list"
  m_rx_index :: "8 word"
  m_stepper_delay :: "16 word"
  m_stepper_position :: "16 word"

definition rx_ok :: "uart_state \<Rightarrow> bool" where
  "rx_ok st = (length (m_received st) = 7)"

text \<open>
  A store through \<^verbatim>\<open>m_received[m_rx_index]\<close> with the index outside the array is
  undefined behaviour in C. The model stops there with the statement that made the
  store and the index it used.
\<close>

datatype fault =
    Terminator_Out_Of_Bounds nat  \<comment> \<open>line 31: \<^verbatim>\<open>m_received[m_rx_index] = '\0'\<close>\<close>
  | Append_Out_Of_Bounds nat      \<comment> \<open>line 48: \<^verbatim>\<open>m_received[m_rx_index++] = byte\<close>\<close>

text \<open>The limits of \<^verbatim>\<open>stdint.h\<close>, both of type \<^verbatim>\<open>int\<close>.\<close>

definition INT16_MAX :: int where
  "INT16_MAX = 32767"

definition INT16_MIN :: int where
  "INT16_MIN = - 32768"

text \<open>
  The C string that starts at a given place of the buffer: the bytes before the first
  \<^verbatim>\<open>'\0'\<close>.
\<close>

definition c_string :: "8 word list \<Rightarrow> 8 word list" where
  "c_string bs = takeWhile (\<lambda>b. b \<noteq> 0) bs"

text \<open>
  The handler \<^verbatim>\<open>ISR(USART_RXC_vect)\<close>, run once for each received byte \<open>byte\<close>
  (the value read from \<^verbatim>\<open>UDR\<close>). The library function \<^verbatim>\<open>atoi\<close> is not part of the
  repository: the handler takes it as the parameter \<open>atoi\<close>, from the C string to the
  \<^verbatim>\<open>int\<close> it returns. The cast \<^verbatim>\<open>(uint16_t)\<close> is \<open>word_of_int\<close>. In the two
  comparisons of line 35 the operands are an \<^verbatim>\<open>unsigned int\<close> and an \<^verbatim>\<open>int\<close>, so
  the limit is converted to \<^verbatim>\<open>unsigned int\<close> first: \<open>0x7FFF\<close> and \<open>0x8000\<close>.
  The codes are \<open>0x0A\<close> for the newline, \<open>0x73\<close> for \<^verbatim>\<open>'s'\<close>, \<open>0x70\<close> for
  \<^verbatim>\<open>'p'\<close>.
\<close>

definition ISR :: "(8 word list \<Rightarrow> int) \<Rightarrow> 8 word \<Rightarrow> uart_state \<Rightarrow> fault + uart_state" where
  "ISR atoi byte st =
     (let i = unat (m_rx_index st) in
      if byte = 0x0A then
        (if i < 7 then
           (let st1 = st\<lparr>m_received := (m_received st)[i := 0]\<rparr>;
                st2 =
                  (if m_received st1 ! 0 = 0x73 then
                     (let st' = st1\<lparr>m_stepper_delay :=
                                  word_of_int (atoi (c_string (drop 1 (m_received st1))))\<rparr>
                      in if m_stepper_delay st' = word_of_int INT16_MAX
                            \<or> m_stepper_delay st' = word_of_int INT16_MIN
                         then st'\<lparr>m_stepper_delay := 0\<rparr>
                         else st')
                   else if m_received st1 ! 0 = 0x70 then
                     st1\<lparr>m_stepper_position :=
                           word_of_int (atoi (c_string (drop 1 (m_received st1))))\<rparr>
                   else st1)
            in Inr (st2\<lparr>m_rx_index := 0\<rparr>))
         else Inl (Terminator_Out_Of_Bounds i))
      else
        (if i < 7 then
           Inr (st\<lparr>m_received := (m_received st)[i := byte],
                   m_rx_index := m_rx_index st + 1\<rparr>)
         else Inl (Append_Out_Of_Bounds i)))"

text \<open>
  The bytes of a stream arrive one interrupt after the other; the handler runs to its
  end before the next one. A fault ends the run.
\<close>

fun receive_bytes :: "(8 word list \<Rightarrow> int) \<Rightarrow> 8 word list \<Rightarrow> uart_state \<Rightarrow> fault + uart_state" where
  "receive_bytes atoi [] st = Inr st"
| "receive_bytes atoi (b # bs) st =
     (case ISR atoi b st of
        Inl e \<Rightarrow> Inl e
      | Inr st' \<Rightarrow> receive_bytes atoi bs st')"

text \<open>
  The line under assembly: the bytes stored before the cursor.
\<close>

definition line_of :: "uart_state \<Rightarrow> 8 word list" where
  "line_of st = take (unat (m_rx_index st)) (m_received st)"

text \<open>
  The four objects have static storage duration and no initialiser, so the program
  starts with all of them zero.
\<close>

definition startup :: uart_state where
  "startup = \<lparr>m_received = [0, 0, 0, 0, 0, 0, 0], m_rx_index = 0,
               m_stepper_delay = 0, m_stepper_position = 0\<rparr>"

text \<open>
  What the rest of the program can observe of the interpreter: the line under
  assembly, the delay and the position. Bytes of the buffer at and after the cursor
  are overwritten before they are read. Two states are alike (\<open>rx_same\<close>) when
  they agree on the cursor and on these three.
\<close>

definition rx_view :: "uart_state \<Rightarrow> 8 word list \<times> 16 word \<times> 16 word" where
  "rx_view st = (line_of st, m_stepper_delay st, m_stepper_position st)"

definition rx_same :: "uart_state \<Rightarrow> uart_state \<Rightarrow> bool" where
  "rx_same a b = (rx_ok a \<and> rx_ok b \<and> m_rx_index a = m_rx_index b \<and> rx_view a = rx_view b)"

text \<open>
  An integer reduced into the signed 16-bit range modulo \<open>2 ^ 16\<close>, as the
  specification words it.
\<close>

definition wrap_int16 :: "int \<Rightarrow> int" where
  "wrap_int16 k = (k + 32768) mod 65536 - 32768"

subsection \<open>The parser of the C library\<close>

text \<open>
  \<^verbatim>\<open>atoi\<close> as avr-libc provides it: it skips white space, reads an optional sign
  and then decimal digits up to the first byte that is not a digit, accumulating in a
  16-bit register without any overflow check; a string with no digit at that place
  gives 0. The theorems about the handler hold for every parser; this one instantiates
  them on concrete lines.
\<close>

definition isspace :: "8 word \<Rightarrow> bool" where
  "isspace c = (c = 0x20 \<or> (0x09 \<le> c \<and> c \<le> 0x0D))"

definition isdigit :: "8 word \<Rightarrow> bool" where
  "isdigit c = (0x30 \<le> c \<and> c \<le> 0x39)"

fun atoi_digits :: "16 word \<Rightarrow> 8 word list \<Rightarrow> 16 word" where
  "atoi_digits acc [] = acc"
| "atoi_digits acc (c # cs) =
     (if isdigit c then atoi_digits (acc * 10 + ucast (c - 0x30)) cs else acc)"

definition atoi_avr :: "8 word list \<Rightarrow> int" where
  "atoi_avr s =
     (case dropWhile isspace s of
        [] \<Rightarrow> 0
      | c # cs \<Rightarrow>
          if c = 0x2D then sint (- atoi_digits 0 cs)
          else if c = 0x2B then sint (atoi_digits 0 cs)
          else sint (atoi_digits 0 (c # cs)))"

text \<open>
  The decimal numeral of a natural number, as a terminal would send it: the input on
  which the parser is compared with the number itself.
\<close>

fun decimal :: "nat \<Rightarrow> 8 word list" where
  "decimal n =
     (if n < 10 then [0x30 + of_nat n]
      else decimal (n div 10) @ [0x30 + of_nat (n mod 10)])"

declare decimal.simps [simp del]

subsection \<open>Stepping engine: the foreground loop\<close>

text \<open>
  What the engine does to the outside is a sequence of events in time: a store to
  \<^verbatim>\<open>PORTC\<close> with the value stored, and a call \<^verbatim>\<open>_delay_us(n)\<close> of the
  busy-wait primitive. Each function takes the events so far and returns them
  extended.
\<close>

datatype event = Port_C "8 word" | Delay_us nat

definition SEQ_SIZE :: nat where
  "SEQ_SIZE = 8"

text \<open>
  \<^verbatim>\<open>my_delay_us\<close>: the loop \<^verbatim>\<open>while(us--)\<close> tests the value before the
  decrement and runs the body when it is not zero.
\<close>

function my_delay_us :: "16 word \<Rightarrow> event list \<Rightarrow> event list" where
  "my_delay_us us tr = (if us \<noteq> 0 then my_delay_us (us - 1) (tr @ [Delay_us 10]) else tr)"
  by pat_completeness auto
termination
  by (relation "measure (\<lambda>(us, tr). unat us)") (simp_all add: unat_minus_one unat_gt_0)

text \<open>
  \<^verbatim>\<open>stepper_rotate\<close>: the \<^verbatim>\<open>for\<close> loop over the \<^verbatim>\<open>uint8_t\<close> index
  \<open>i\<close>, inside the \<^verbatim>\<open>while\<close> loop over the \<^verbatim>\<open>uint16_t\<close> counter
  \<open>count\<close>. The array \<open>seq\<close> is read at \<open>0 .. SEQ_SIZE - 1\<close>; both callers
  pass an array of \<open>SEQ_SIZE\<close> elements.
\<close>

function stepper_rotate_for :: "8 word list \<Rightarrow> 16 word \<Rightarrow> 8 word \<Rightarrow> event list \<Rightarrow> event list" where
  "stepper_rotate_for seq delay i tr =
     (if unat i < SEQ_SIZE
      then stepper_rotate_for seq delay (i + 1) (my_delay_us delay (tr @ [Port_C (seq ! unat i)]))
      else tr)"
  by pat_completeness auto
termination
  by (relation "measure (\<lambda>(seq, delay, i, tr). SEQ_SIZE - unat i)")
     (simp_all add: SEQ_SIZE_def unat_word_ariths)

function stepper_rotate_while ::
  "8 word list \<Rightarrow> 16 word \<Rightarrow> 16 word \<Rightarrow> 16 word \<Rightarrow> event list \<Rightarrow> event list" where
  "stepper_rotate_while seq delay dif_position count tr =
     (if count < dif_position
      then stepper_rotate_while seq delay dif_position (count + 1) (stepper_rotate_for seq delay 0 tr)
      else tr)"
  by pat_completeness auto
termination
proof (relation "measure (\<lambda>(seq, delay, dif_position, count, tr). unat dif_position - unat count)")
  show "wf (measure (\<lambda>(seq, delay, dif_position, count, tr). unat dif_position - unat count))"
    by simp
next
  fix seq :: "8 word list" and delay dif_position count :: "16 word" and tr :: "event list"
  assume "count < dif_position"
  then have lt: "unat count < unat dif_position"
    by (simp add: word_less_nat_alt)
  moreover have "unat dif_position < 65536"
    using unsigned_less [of dif_position, where ?'a = nat] by simp
  ultimately have "unat (count + 1) = unat count + 1"
    by (simp add: unat_word_ariths)
  with lt
  show "((seq, delay, dif_position, count + 1, stepper_rotate_for seq delay 0 tr),
         (seq, delay, dif_position, count, tr))
        \<in> measure (\<lambda>(seq, delay, dif_position, count, tr). unat dif_position - unat count)"
    by simp
qed

declare my_delay_us.simps [simp del]
declare stepper_rotate_for.simps [simp del]
declare stepper_rotate_while.simps [simp del]

definition stepper_rotate :: "8 word list \<Rightarrow> 16 word \<Rightarrow> 16 word \<Rightarrow> event list \<Rightarrow> event list" where
  "stepper_rotate seq delay dif_position tr = stepper_rotate_while seq delay dif_position 0 tr"

definition seq_cw :: "8 word list" where
  "seq_cw = [0x1, 0x3, 0x2, 0x6, 0x4, 0xc, 0x8, 0x9]"

definition seq_ccw :: "8 word list" where
  "seq_ccw = [0x9, 0x8, 0xc, 0x4, 0x6, 0x2, 0x3, 0x1]"

text \<open>
  One iteration of \<^verbatim>\<open>while (1)\<close> in \<^verbatim>\<open>main\<close>. The argument \<open>st\<close> is the
  interpreter's state during the section between \<^verbatim>\<open>cli()\<close> and \<^verbatim>\<open>sei()\<close>,
  where the two shared objects are copied; the rest of the iteration works on the
  copies. \<open>previous_position\<close> is the local \<^verbatim>\<open>int16_t\<close> that lives across
  iterations (initially 0), \<open>trace\<close> the events so far. \<^verbatim>\<open>int16_t\<close> values
  are read with \<open>sint\<close>.
\<close>

record main_state =
  previous_position :: "16 word"
  trace :: "event list"

definition main_loop_body :: "uart_state \<Rightarrow> main_state \<Rightarrow> main_state" where
  "main_loop_body st m =
     (let delay = m_stepper_delay st;
          position = m_stepper_position st;
          dif_position = position - previous_position m;
          tr =
            (if 0 < sint dif_position then
               stepper_rotate seq_cw delay dif_position (trace m)
             else if sint dif_position < 0 then
               (let dif_position = - dif_position
                in stepper_rotate seq_ccw delay dif_position (trace m))
             else trace m)
      in \<lparr>previous_position = position, trace = tr\<rparr>)"

text \<open>
  Reading a trace: the values stored to the port, in order; one coil step held for a
  delay (a store followed by that many calls of the 10 microsecond primitive); one
  full cycle of a sequence.
\<close>

fun port_writes :: "event list \<Rightarrow> 8 word list" where
  "port_writes [] = []"
| "port_writes (Port_C w # es) = w # port_writes es"
| "port_writes (Delay_us n # es) = port_writes es"

definition hold :: "16 word \<Rightarrow> 8 word \<Rightarrow> event list" where
  "hold delay w = Port_C w # replicate (unat delay) (Delay_us 10)"

definition cycle :: "8 word list \<Rightarrow> 16 word \<Rightarrow> event list" where
  "cycle seq delay = concat (map (hold delay) seq)"

section \<open>Properties of the interpreter\<close>

lemma c_string_append_nul: "c_string (xs @ 0 # ys) = c_string xs"
  by (induction xs) (auto simp: c_string_def)

lemma unat_idx_Suc: "unat (i :: 8 word) < 7 \<Longrightarrow> unat (i + 1) = Suc (unat i)"
  by (simp add: unat_word_ariths)

lemma terminated_first:
  "i < length buf \<Longrightarrow> buf[i := 0] ! 0 = (case take i buf of [] \<Rightarrow> 0 | c # cs \<Rightarrow> c)"
  by (cases buf; cases i) auto

lemma terminated_rest:
  assumes "i < length buf" "0 < i"
  shows "c_string (drop 1 (buf[i := 0])) = c_string (drop 1 (take i buf))"
proof -
  have "buf[i := 0] = take i buf @ 0 # drop (Suc i) buf"
    using assms by (simp add: upd_conv_take_nth_drop)
  moreover have "drop 1 (take i buf @ 0 # drop (Suc i) buf) = drop 1 (take i buf) @ 0 # drop (Suc i) buf"
    using assms by simp
  ultimately show ?thesis by (simp add: c_string_append_nul)
qed

lemma ISR_newline_s:
  assumes "rx_ok st" "unat (m_rx_index st) < 7" "line_of st = 0x73 # ds"
  shows "ISR atoi 0x0A st =
    Inr (st\<lparr>m_received := (m_received st)[unat (m_rx_index st) := 0],
            m_stepper_delay :=
               (if word_of_int (atoi (c_string ds)) = (word_of_int INT16_MAX :: 16 word)
                   \<or> word_of_int (atoi (c_string ds)) = (word_of_int INT16_MIN :: 16 word)
                then 0 else word_of_int (atoi (c_string ds))),
            m_rx_index := 0\<rparr>)"
proof -
  let ?i = "unat (m_rx_index st)"
  have len: "?i < length (m_received st)" using assms by (simp add: rx_ok_def)
  have pos: "0 < ?i" using assms(3) by (cases "?i") (auto simp: line_of_def)
  have first: "(m_received st)[?i := 0] ! 0 = 0x73"
    using terminated_first [OF len] assms(3) by (simp add: line_of_def)
  have rest: "c_string (drop 1 ((m_received st)[?i := 0])) = c_string ds"
    using terminated_rest [OF len pos] assms(3) by (simp add: line_of_def)
  show ?thesis
    using assms(2) first rest by (simp add: ISR_def Let_def)
qed

lemma ISR_newline_p:
  assumes "rx_ok st" "unat (m_rx_index st) < 7" "line_of st = 0x70 # ds"
  shows "ISR atoi 0x0A st =
    Inr (st\<lparr>m_received := (m_received st)[unat (m_rx_index st) := 0],
            m_stepper_position := word_of_int (atoi (c_string ds)),
            m_rx_index := 0\<rparr>)"
proof -
  let ?i = "unat (m_rx_index st)"
  have len: "?i < length (m_received st)" using assms by (simp add: rx_ok_def)
  have pos: "0 < ?i" using assms(3) by (cases "?i") (auto simp: line_of_def)
  have first: "(m_received st)[?i := 0] ! 0 = 0x70"
    using terminated_first [OF len] assms(3) by (simp add: line_of_def)
  have rest: "c_string (drop 1 ((m_received st)[?i := 0])) = c_string ds"
    using terminated_rest [OF len pos] assms(3) by (simp add: line_of_def)
  show ?thesis
    using assms(2) first rest by (simp add: ISR_def Let_def)
qed

lemma ISR_newline_other:
  assumes "rx_ok st" "unat (m_rx_index st) < 7"
    "line_of st = [] \<or> (hd (line_of st) \<noteq> 0x73 \<and> hd (line_of st) \<noteq> 0x70)"
  shows "ISR atoi 0x0A st =
    Inr (st\<lparr>m_received := (m_received st)[unat (m_rx_index st) := 0], m_rx_index := 0\<rparr>)"
proof -
  let ?i = "unat (m_rx_index st)"
  have len: "?i < length (m_received st)" using assms by (simp add: rx_ok_def)
  have first: "(m_received st)[?i := 0] ! 0 \<noteq> 0x73 \<and> (m_received st)[?i := 0] ! 0 \<noteq> 0x70"
    using terminated_first [OF len] assms(3) by (auto simp: line_of_def split: list.splits)
  show ?thesis
    using assms(2) first by (simp add: ISR_def Let_def)
qed

lemma receive_bytes_append:
  "receive_bytes atoi (xs @ ys) st =
     (case receive_bytes atoi xs st of Inl e \<Rightarrow> Inl e | Inr s \<Rightarrow> receive_bytes atoi ys s)"
  by (induction xs arbitrary: st) (auto split: sum.splits)

lemma ISR_rx_same:
  assumes "rx_same a b"
  shows "rel_sum (=) rx_same (ISR atoi byte a) (ISR atoi byte b)"
proof (cases "unat (m_rx_index a) < 7")
  case False
  then show ?thesis using assms by (simp add: ISR_def Let_def rx_same_def)
next
  case lt: True
  let ?i = "unat (m_rx_index a)"
  have idx: "m_rx_index b = m_rx_index a" and oka: "rx_ok a" and okb: "rx_ok b"
    and line: "line_of b = line_of a"
    and dp: "m_stepper_delay b = m_stepper_delay a" "m_stepper_position b = m_stepper_position a"
    using assms by (simp_all add: rx_same_def rx_view_def)
  have lena: "?i < length (m_received a)" and lenb: "?i < length (m_received b)"
    using lt oka okb by (simp_all add: rx_ok_def)
  have tk: "take ?i (m_received b) = take ?i (m_received a)"
    using line idx by (simp add: line_of_def)
  show ?thesis
  proof (cases "byte = 0x0A")
    case False
    have "take (Suc ?i) ((m_received b)[?i := byte]) = take (Suc ?i) ((m_received a)[?i := byte])"
      using lena lenb tk by (simp add: take_Suc_conv_app_nth)
    then show ?thesis
      using False lt idx dp oka okb
      by (simp add: ISR_def Let_def rx_same_def rx_view_def line_of_def rx_ok_def unat_idx_Suc)
  next
    case nl: True
    have first: "(m_received b)[?i := 0] ! 0 = (m_received a)[?i := 0] ! 0"
      using terminated_first [OF lena] terminated_first [OF lenb] tk by simp
    show ?thesis
    proof (cases "?i = 0")
      case True
      then have "(m_received a)[?i := 0] ! 0 = 0" "(m_received b)[?i := 0] ! 0 = 0"
        using lena lenb by (simp_all add: nth_list_update)
      then show ?thesis
        using nl lt idx dp oka okb True
        by (simp add: ISR_def Let_def rx_same_def rx_view_def line_of_def rx_ok_def)
    next
      case False
      then have "0 < ?i" by simp
      then have rest: "c_string (drop 1 ((m_received b)[?i := 0])) = c_string (drop 1 ((m_received a)[?i := 0]))"
        using terminated_rest [OF lena] terminated_rest [OF lenb] tk by simp
      show ?thesis
        using nl lt idx dp oka okb first rest
        by (simp add: ISR_def Let_def rx_same_def rx_view_def line_of_def rx_ok_def)
    qed
  qed
qed

lemma receive_bytes_rx_same:
  "rx_same a b \<Longrightarrow> rel_sum (=) rx_same (receive_bytes atoi bs a) (receive_bytes atoi bs b)"
proof (induction bs arbitrary: a b)
  case Nil
  then show ?case by simp
next
  case (Cons x xs)
  from ISR_rx_same [OF Cons.prems, of atoi x]
  show ?case
    by (cases "ISR atoi x a"; cases "ISR atoi x b") (auto intro: Cons.IH)
qed

lemma receive_bytes_accumulate:
  assumes "rx_ok st" "unat (m_rx_index st) + length bs \<le> 7" "0x0A \<notin> set bs"
  shows "\<exists>st'. receive_bytes atoi bs st = Inr st' \<and> rx_ok st' \<and> line_of st' = line_of st @ bs
     \<and> unat (m_rx_index st') = unat (m_rx_index st) + length bs
     \<and> m_stepper_delay st' = m_stepper_delay st \<and> m_stepper_position st' = m_stepper_position st"
  using assms
proof (induction bs arbitrary: st)
  case Nil
  then show ?case by simp
next
  case (Cons b bs)
  from Cons.prems have lt: "unat (m_rx_index st) < 7" and nb: "b \<noteq> 0x0A" by auto
  have "\<exists>s1. ISR atoi b st = Inr s1 \<and> rx_ok s1 \<and> line_of s1 = line_of st @ [b]
     \<and> unat (m_rx_index s1) = Suc (unat (m_rx_index st))
     \<and> m_stepper_delay s1 = m_stepper_delay st \<and> m_stepper_position s1 = m_stepper_position st"
    using Cons.prems(1) lt nb
    by (simp add: ISR_def Let_def rx_ok_def line_of_def unat_idx_Suc take_Suc_conv_app_nth)
  then obtain s1 where s1: "ISR atoi b st = Inr s1" "rx_ok s1" "line_of s1 = line_of st @ [b]"
     "unat (m_rx_index s1) = Suc (unat (m_rx_index st))"
     "m_stepper_delay s1 = m_stepper_delay st" "m_stepper_position s1 = m_stepper_position st"
    by blast
  have "\<exists>st'. receive_bytes atoi bs s1 = Inr st' \<and> rx_ok st' \<and> line_of st' = line_of s1 @ bs
     \<and> unat (m_rx_index st') = unat (m_rx_index s1) + length bs
     \<and> m_stepper_delay st' = m_stepper_delay s1 \<and> m_stepper_position st' = m_stepper_position s1"
    using Cons.prems s1 by (intro Cons.IH) auto
  then show ?case using s1 by auto
qed

lemma receive_line:
  assumes "rx_ok st" "m_rx_index st = 0" "0x0A \<notin> set l" "length l \<le> 7"
  shows "\<exists>s1. receive_bytes atoi l st = Inr s1 \<and> rx_ok s1 \<and> line_of s1 = l
     \<and> unat (m_rx_index s1) = length l
     \<and> m_stepper_delay s1 = m_stepper_delay st \<and> m_stepper_position s1 = m_stepper_position st"
  using receive_bytes_accumulate [of st l atoi] assms by (simp add: line_of_def)

lemma mod_65536_cases:
  fixes N :: int
  assumes "- 32768 \<le> N" "N \<le> 32767"
  shows "N mod 65536 = (if 0 \<le> N then N else N + 65536)"
proof (cases "0 \<le> N")
  case True
  then show ?thesis using assms by simp
next
  case False
  have "N mod 65536 = (N + 65536) mod 65536"
    by (simp only: mod_add_self2)
  also have "\<dots> = N + 65536"
    using False assms by (intro mod_pos_pos_trivial) simp_all
  finally show ?thesis using False by (simp only: if_False)
qed

lemma uint_word_of_int_16:
  assumes "INT16_MIN \<le> N" "N \<le> INT16_MAX"
  shows "uint (word_of_int N :: 16 word) = (if 0 \<le> N then N else N + 65536)"
proof -
  have "uint (word_of_int N :: 16 word) = N mod 65536"
    by (simp add: uint_word_of_int)
  then show ?thesis
    using assms mod_65536_cases [of N] by (simp add: INT16_MIN_def INT16_MAX_def)
qed

lemma delay_not_sentinel:
  assumes "INT16_MIN < N" "N < INT16_MAX"
  shows "(word_of_int N :: 16 word) \<noteq> word_of_int INT16_MAX"
    and "(word_of_int N :: 16 word) \<noteq> word_of_int INT16_MIN"
proof -
  have u: "uint (word_of_int N :: 16 word) = (if 0 \<le> N then N else N + 65536)"
    using assms by (intro uint_word_of_int_16) simp_all
  have "uint (word_of_int INT16_MAX :: 16 word) = 32767"
    by (simp add: INT16_MAX_def)
  with u assms show "(word_of_int N :: 16 word) \<noteq> word_of_int INT16_MAX"
    by (auto simp: INT16_MIN_def INT16_MAX_def split: if_splits)
  have "uint (word_of_int INT16_MIN :: 16 word) = 32768"
    by (simp add: INT16_MIN_def)
  with u assms show "(word_of_int N :: 16 word) \<noteq> word_of_int INT16_MIN"
    by (auto simp: INT16_MIN_def INT16_MAX_def split: if_splits)
qed

lemma sint_word_of_int_16: "sint (word_of_int N :: 16 word) = wrap_int16 N"
  by (simp add: sint_sbintrunc' signed_take_bit_eq_take_bit_shift take_bit_eq_mod wrap_int16_def)

lemma wrap_int16_id: "INT16_MIN \<le> N \<Longrightarrow> N \<le> INT16_MAX \<Longrightarrow> wrap_int16 N = N"
  by (simp add: wrap_int16_def INT16_MIN_def INT16_MAX_def)

lemma s_line_run:
  assumes "rx_ok st" "m_rx_index st = 0" "0x0A \<notin> set ds" "length ds \<le> 5"
  shows "\<exists>st'. receive_bytes atoi (0x73 # ds @ [0x0A]) st = Inr st'
           \<and> m_stepper_delay st' =
               (if word_of_int (atoi (c_string ds)) = (word_of_int INT16_MAX :: 16 word)
                   \<or> word_of_int (atoi (c_string ds)) = (word_of_int INT16_MIN :: 16 word)
                then 0 else word_of_int (atoi (c_string ds)))
           \<and> m_stepper_position st' = m_stepper_position st
           \<and> m_rx_index st' = 0"
proof -
  obtain s1 where s1: "receive_bytes atoi (0x73 # ds) st = Inr s1" "rx_ok s1"
      "line_of s1 = 0x73 # ds" "unat (m_rx_index s1) = length (0x73 # ds)"
      "m_stepper_position s1 = m_stepper_position st"
    using receive_line [of st "0x73 # ds" atoi] assms by auto
  have lt: "unat (m_rx_index s1) < 7"
    using s1(4) assms(4) by simp
  have "receive_bytes atoi ((0x73 # ds) @ [0x0A]) st = ISR atoi 0x0A s1"
    by (simp only: receive_bytes_append s1(1)) (simp split: sum.splits)
  then show ?thesis
    using ISR_newline_s [OF s1(2) lt s1(3), of atoi] s1(5) by simp
qed

lemma p_line_run:
  assumes "rx_ok st" "m_rx_index st = 0" "0x0A \<notin> set ds" "length ds \<le> 5"
  shows "\<exists>st'. receive_bytes atoi (0x70 # ds @ [0x0A]) st = Inr st'
           \<and> m_stepper_position st' = word_of_int (atoi (c_string ds))
           \<and> m_stepper_delay st' = m_stepper_delay st
           \<and> m_rx_index st' = 0"
proof -
  obtain s1 where s1: "receive_bytes atoi (0x70 # ds) st = Inr s1" "rx_ok s1"
      "line_of s1 = 0x70 # ds" "unat (m_rx_index s1) = length (0x70 # ds)"
      "m_stepper_delay s1 = m_stepper_delay st"
    using receive_line [of st "0x70 # ds" atoi] assms by auto
  have lt: "unat (m_rx_index s1) < 7"
    using s1(4) assms(4) by simp
  have "receive_bytes atoi ((0x70 # ds) @ [0x0A]) st = ISR atoi 0x0A s1"
    by (simp only: receive_bytes_append s1(1)) (simp split: sum.splits)
  then show ?thesis
    using ISR_newline_p [OF s1(2) lt s1(3), of atoi] s1(5) by simp
qed

section \<open>Properties of the stepping engine\<close>

lemma my_delay_us_eq: "my_delay_us us tr = tr @ replicate (unat us) (Delay_us 10)"
proof (induction us tr rule: my_delay_us.induct)
  case (1 us tr)
  show ?case
  proof (cases "us = 0")
    case True
    then show ?thesis by (subst my_delay_us.simps) simp
  next
    case False
    have "0 < unat us" using False by (simp add: unat_gt_0)
    then have n: "Suc (unat (us - 1)) = unat us"
      using False by (simp add: unat_minus_one)
    have "my_delay_us us tr = my_delay_us (us - 1) (tr @ [Delay_us 10])"
      using False by (subst my_delay_us.simps) (simp only: if_True not_False_eq_True)
    also have "\<dots> = (tr @ [Delay_us 10]) @ replicate (unat (us - 1)) (Delay_us 10)"
      using False by (rule "1.IH")
    also have "\<dots> = tr @ replicate (Suc (unat (us - 1))) (Delay_us 10)"
      by (simp only: replicate.simps append_assoc append.simps)
    finally show ?thesis by (simp only: n)
  qed
qed

lemma stepper_rotate_for_eq:
  "stepper_rotate_for seq delay i tr =
     tr @ concat (map (\<lambda>k. hold delay (seq ! k)) [unat i..<SEQ_SIZE])"
proof (induction seq delay i tr rule: stepper_rotate_for.induct)
  case (1 seq delay i tr)
  show ?case
  proof (cases "unat i < SEQ_SIZE")
    case False
    then show ?thesis by (subst stepper_rotate_for.simps) simp
  next
    case True
    then have suc: "unat (i + 1) = Suc (unat i)"
      by (simp add: SEQ_SIZE_def unat_word_ariths)
    have upt: "[unat i..<SEQ_SIZE] = unat i # [Suc (unat i)..<SEQ_SIZE]"
      using True by (simp add: upt_conv_Cons)
    have "stepper_rotate_for seq delay i tr =
        stepper_rotate_for seq delay (i + 1) (my_delay_us delay (tr @ [Port_C (seq ! unat i)]))"
      using True by (subst stepper_rotate_for.simps) (simp only: if_True)
    also have "\<dots> = my_delay_us delay (tr @ [Port_C (seq ! unat i)])
        @ concat (map (\<lambda>k. hold delay (seq ! k)) [unat (i + 1)..<SEQ_SIZE])"
      using True by (rule "1.IH")
    also have "\<dots> = tr @ hold delay (seq ! unat i)
        @ concat (map (\<lambda>k. hold delay (seq ! k)) [Suc (unat i)..<SEQ_SIZE])"
      by (simp only: suc my_delay_us_eq hold_def append_assoc append.simps)
    also have "\<dots> = tr @ concat (map (\<lambda>k. hold delay (seq ! k)) [unat i..<SEQ_SIZE])"
      by (simp only: upt list.map concat.simps)
    finally show ?thesis .
  qed
qed

lemma stepper_rotate_for_cycle:
  assumes "length seq = SEQ_SIZE"
  shows "stepper_rotate_for seq delay 0 tr = tr @ cycle seq delay"
proof -
  have "map (\<lambda>k. hold delay (seq ! k)) [0..<length seq] = map (hold delay) (map ((!) seq) [0..<length seq])"
    by simp
  also have "\<dots> = map (hold delay) seq"
    by (simp only: map_nth)
  finally show ?thesis
    using assms by (simp add: stepper_rotate_for_eq cycle_def)
qed

lemma stepper_rotate_while_eq:
  assumes "length seq = SEQ_SIZE"
  shows "stepper_rotate_while seq delay dif_position count tr =
     tr @ concat (replicate (unat dif_position - unat count) (cycle seq delay))"
  using assms
proof (induction seq delay dif_position count tr rule: stepper_rotate_while.induct)
  case (1 seq delay dif_position count tr)
  show ?case
  proof (cases "count < dif_position")
    case False
    then have "unat dif_position - unat count = 0"
      by (simp add: word_less_nat_alt)
    with False show ?thesis
      by (subst stepper_rotate_while.simps) simp
  next
    case True
    then have lt: "unat count < unat dif_position" by (simp add: word_less_nat_alt)
    moreover have "unat dif_position < 65536" using unsigned_less [of dif_position, where ?'a = nat] by simp
    ultimately have suc: "unat (count + 1) = Suc (unat count)" by (simp add: unat_word_ariths)
    have n: "Suc (unat dif_position - unat (count + 1)) = unat dif_position - unat count"
      using lt suc by simp
    have "stepper_rotate_while seq delay dif_position count tr =
        stepper_rotate_while seq delay dif_position (count + 1) (stepper_rotate_for seq delay 0 tr)"
      using True by (subst stepper_rotate_while.simps) (simp only: if_True)
    also have "\<dots> = stepper_rotate_for seq delay 0 tr
        @ concat (replicate (unat dif_position - unat (count + 1)) (cycle seq delay))"
      using True "1.prems" by (rule "1.IH")
    also have "\<dots> = tr
        @ concat (replicate (Suc (unat dif_position - unat (count + 1))) (cycle seq delay))"
      by (simp only: stepper_rotate_for_cycle [OF "1.prems"] replicate.simps concat.simps append_assoc)
    finally show ?thesis by (simp only: n)
  qed
qed

lemma stepper_rotate_eq:
  "length seq = SEQ_SIZE \<Longrightarrow>
   stepper_rotate seq delay dif_position tr =
     tr @ concat (replicate (unat dif_position) (cycle seq delay))"
  by (simp add: stepper_rotate_def stepper_rotate_while_eq)

lemma port_writes_append: "port_writes (xs @ ys) = port_writes xs @ port_writes ys"
  by (induction xs rule: port_writes.induct) auto

lemma port_writes_delays: "port_writes (replicate n (Delay_us k)) = []"
  by (induction n) auto

lemma port_writes_cycle: "port_writes (cycle seq delay) = seq"
  by (induction seq) (auto simp: cycle_def hold_def port_writes_append port_writes_delays)

lemma port_writes_cycles:
  "port_writes (concat (replicate n (cycle seq delay))) = concat (replicate n seq)"
  by (induction n) (auto simp: port_writes_append port_writes_cycle)

lemma sint_16_range: "- 32768 \<le> sint (w :: 16 word) \<and> sint w \<le> 32767"
  using sint_ge [of w] sint_lt [of w] by simp

lemma uint_16_of_sint:
  "uint (w :: 16 word) = (if 0 \<le> sint w then sint w else sint w + 65536)"
proof -
  have "uint w = sint w mod 65536"
    using uint_sint [of w] by (simp add: take_bit_eq_mod)
  moreover have "sint w mod 65536 = (if 0 \<le> sint w then sint w else sint w + 65536)"
  proof (cases "0 \<le> sint w")
    case True
    then show ?thesis using sint_16_range [of w] by simp
  next
    case False
    have "sint w mod 65536 = (sint w + 65536) mod 65536"
      by (simp only: mod_add_self2)
    also have "\<dots> = sint w + 65536"
      using False sint_16_range [of w] by (intro mod_pos_pos_trivial) simp_all
    finally show ?thesis using False by (simp only: if_False)
  qed
  ultimately show ?thesis by simp
qed

lemma unat_of_positive:
  assumes "0 < sint (d :: 16 word)"
  shows "unat d = nat (sint d)"
proof -
  have "uint d = sint d" using assms by (simp add: uint_16_of_sint)
  then show ?thesis by (simp add: unat_eq_nat_uint)
qed

lemma unat_neg_of_negative:
  assumes "sint (d :: 16 word) < 0"
  shows "unat (- d) = nat (- sint d)"
proof -
  have u: "uint d = sint d + 65536" using assms by (simp add: uint_16_of_sint)
  have "uint (- d) = (- uint d) mod 65536"
    by (simp add: uint_word_ariths)
  also have "\<dots> = (- sint d - 65536) mod 65536"
    by (simp only: u) simp
  also have "\<dots> = (- sint d - 65536 + 65536) mod 65536"
    by (simp only: mod_add_self2)
  also have "\<dots> = (- sint d) mod 65536"
    by simp
  also have "\<dots> = - sint d"
    using assms sint_16_range [of d] by (intro mod_pos_pos_trivial) simp_all
  finally show ?thesis by (simp add: unat_eq_nat_uint)
qed

lemma sint_sub_16: "sint (a - b :: 16 word) = wrap_int16 (sint a - sint b)"
  by (simp add: sint_word_ariths signed_take_bit_eq_take_bit_shift take_bit_eq_mod wrap_int16_def)

lemma length_seq: "length seq_cw = SEQ_SIZE" "length seq_ccw = SEQ_SIZE"
  by (simp_all add: seq_cw_def seq_ccw_def SEQ_SIZE_def)

lemma main_loop_body_eq:
  "main_loop_body st m =
     \<lparr>previous_position = m_stepper_position st,
      trace = trace m @
        concat (replicate (nat \<bar>sint (m_stepper_position st - previous_position m)\<bar>)
          (cycle (if 0 < sint (m_stepper_position st - previous_position m)
                  then seq_cw else seq_ccw) (m_stepper_delay st)))\<rparr>"
proof -
  let ?d = "m_stepper_position st - previous_position m"
  consider (cw) "0 < sint ?d" | (ccw) "sint ?d < 0" | (still) "sint ?d = 0"
    by linarith
  then show ?thesis
  proof cases
    case cw
    then show ?thesis
      by (simp add: main_loop_body_def Let_def stepper_rotate_eq length_seq unat_of_positive)
  next
    case ccw
    then have "unat (- ?d) = nat (- sint ?d)"
      by (rule unat_neg_of_negative)
    then have "unat (previous_position m - m_stepper_position st) = nat (- sint ?d)"
      by simp
    with ccw show ?thesis
      by (simp add: main_loop_body_def Let_def stepper_rotate_eq length_seq)
  next
    case still
    then show ?thesis
      by (simp add: main_loop_body_def Let_def)
  qed
qed

lemma port_writes_holds: "port_writes (concat (map (hold delay) ws)) = ws"
  by (induction ws) (simp_all add: hold_def port_writes_append port_writes_delays)

lemma cycles_as_holds:
  "concat (replicate n (cycle seq delay)) = concat (map (hold delay) (concat (replicate n seq)))"
  by (induction n) (simp_all add: cycle_def)

section \<open>The library parser on decimal numerals\<close>

lemma digit_char:
  assumes "d < 10"
  shows "isdigit (0x30 + of_nat d)"
    and "\<not> isspace (0x30 + of_nat d)"
    and "(0x30 + of_nat d :: 8 word) \<noteq> 0x2D"
    and "(0x30 + of_nat d :: 8 word) \<noteq> 0x2B"
    and "(0x30 + of_nat d :: 8 word) \<noteq> 0x0A"
    and "(0x30 + of_nat d :: 8 word) \<noteq> 0"
    and "(ucast (0x30 + of_nat d - 0x30 :: 8 word) :: 16 word) = of_nat d"
proof -
  have u: "unat (0x30 + of_nat d :: 8 word) = 48 + d"
    using assms by (simp add: unat_word_ariths unat_of_nat)
  have ne: "(0x30 + of_nat d :: 8 word) \<noteq> w" if "unat w \<noteq> 48 + d" for w
  proof
    assume "(0x30 + of_nat d :: 8 word) = w"
    then have "unat (0x30 + of_nat d :: 8 word) = unat w"
      by (rule arg_cong)
    with u that show False
      by simp
  qed
  show "isdigit (0x30 + of_nat d)"
    using assms u by (simp add: isdigit_def word_le_nat_alt)
  have "\<not> (0x30 + of_nat d :: 8 word) \<le> 0x0D"
    using u by (simp add: word_le_nat_alt)
  moreover have "(0x30 + of_nat d :: 8 word) \<noteq> 0x20"
    by (rule ne) simp
  ultimately show "\<not> isspace (0x30 + of_nat d)"
    by (simp only: isspace_def) blast
  show "(0x30 + of_nat d :: 8 word) \<noteq> 0x2D"
    using assms by (intro ne) simp
  show "(0x30 + of_nat d :: 8 word) \<noteq> 0x2B"
    using assms by (intro ne) simp
  show "(0x30 + of_nat d :: 8 word) \<noteq> 0x0A"
    by (rule ne) simp
  show "(0x30 + of_nat d :: 8 word) \<noteq> 0"
    by (rule ne) simp
  have "(0x30 + of_nat d - 0x30 :: 8 word) = of_nat d"
    by simp
  moreover have "(ucast (of_nat d :: 8 word) :: 16 word) = of_nat d"
    using assms by (simp add: unsigned_of_nat take_bit_nat_eq_self)
  ultimately show "(ucast (0x30 + of_nat d - 0x30 :: 8 word) :: 16 word) = of_nat d"
    by simp
qed

lemma atoi_digits_append:
  "\<forall>c \<in> set xs. isdigit c \<Longrightarrow> atoi_digits acc (xs @ ys) = atoi_digits (atoi_digits acc xs) ys"
  by (induction xs arbitrary: acc) simp_all

lemma decimal_digits: "c \<in> set (decimal n) \<Longrightarrow> \<exists>d<10. c = 0x30 + of_nat d"
proof (induction n rule: decimal.induct)
  case (1 n)
  show ?case
  proof (cases "n < 10")
    case True
    with "1.prems" show ?thesis by (subst (asm) decimal.simps) auto
  next
    case False
    from "1.prems" have "c \<in> set (decimal (n div 10)) \<or> c = 0x30 + of_nat (n mod 10)"
      using False by (subst (asm) decimal.simps) auto
    then show ?thesis
    proof
      assume "c \<in> set (decimal (n div 10))"
      then show ?thesis using False by (intro "1.IH") simp_all
    next
      assume "c = 0x30 + of_nat (n mod 10)"
      moreover have "n mod 10 < 10" by simp
      ultimately show ?thesis by blast
    qed
  qed
qed

lemma decimal_nonempty: "decimal n \<noteq> []"
  by (subst decimal.simps) simp

lemma length_decimal: "n < 10 ^ k \<Longrightarrow> 0 < k \<Longrightarrow> length (decimal n) \<le> k"
proof (induction n arbitrary: k rule: decimal.induct)
  case (1 n)
  show ?case
  proof (cases "n < 10")
    case True
    then show ?thesis using "1.prems" by (subst decimal.simps) simp
  next
    case False
    obtain j where k: "k = Suc j" using "1.prems"(2) by (cases k) auto
    have "j \<noteq> 0" using False "1.prems"(1) k by (cases j) auto
    moreover have "n div 10 < 10 ^ j" using "1.prems"(1) k by (simp add: less_mult_imp_div_less)
    ultimately have "length (decimal (n div 10)) \<le> j"
      using False by (intro "1.IH") simp_all
    then show ?thesis using False k by (subst decimal.simps) simp
  qed
qed

lemma atoi_digits_decimal:
  "atoi_digits acc (decimal n) = acc * 10 ^ length (decimal n) + of_nat n"
proof (induction n arbitrary: acc rule: decimal.induct)
  case (1 n)
  show ?case
  proof (cases "n < 10")
    case True
    have "decimal n = [0x30 + of_nat n]"
      using True by (subst decimal.simps) simp
    then show ?thesis
      using digit_char(1,7) [OF True] by simp
  next
    case False
    let ?q = "n div 10" and ?r = "n mod 10"
    have r: "?r < 10" by simp
    have dec: "decimal n = decimal ?q @ [0x30 + of_nat ?r]"
      using False by (subst decimal.simps) simp
    have all: "\<forall>c \<in> set (decimal ?q). isdigit c"
      using decimal_digits digit_char(1) by blast
    have "atoi_digits acc (decimal n) =
        atoi_digits (atoi_digits acc (decimal ?q)) [0x30 + of_nat ?r]"
      by (simp only: dec atoi_digits_append [OF all])
    also have "\<dots> = (acc * 10 ^ length (decimal ?q) + of_nat ?q) * 10 + of_nat ?r"
      using False digit_char(1,7) [OF r] by (simp add: "1.IH")
    also have "\<dots> = acc * 10 ^ length (decimal n) + (of_nat ?q * 10 + of_nat ?r)"
      by (simp add: dec algebra_simps)
    also have "(of_nat ?q * 10 + of_nat ?r :: 16 word) = of_nat (?q * 10 + ?r)"
      by (simp only: of_nat_add of_nat_mult of_nat_numeral)
    also have "?q * 10 + ?r = n"
      by simp
    finally show ?thesis .
  qed
qed

lemma sint_of_nat_16:
  assumes "n \<le> 32767"
  shows "sint (of_nat n :: 16 word) = int n"
proof -
  have u: "uint (of_nat n :: 16 word) = int n"
    using assms by (simp add: uint_nat unat_of_nat)
  show ?thesis
  proof (cases "0 \<le> sint (of_nat n :: 16 word)")
    case True
    then show ?thesis using u uint_16_of_sint [of "of_nat n"] by simp
  next
    case False
    then have "int n = sint (of_nat n :: 16 word) + 65536"
      using u uint_16_of_sint [of "of_nat n"] by simp
    moreover have "- 32768 \<le> sint (of_nat n :: 16 word)"
      using sint_16_range [of "of_nat n"] by simp
    ultimately show ?thesis using assms by simp
  qed
qed

lemma atoi_avr_decimal:
  assumes "n \<le> 32767"
  shows "atoi_avr (decimal n) = int n"
proof -
  obtain c cs where cs: "decimal n = c # cs"
    using decimal_nonempty [of n] by (cases "decimal n") auto
  then have "c \<in> set (decimal n)" by simp
  then obtain d where d: "d < 10" "c = 0x30 + of_nat d"
    using decimal_digits by blast
  have "\<not> isspace c" "c \<noteq> 0x2D" "c \<noteq> 0x2B"
    using digit_char [OF d(1)] d(2) by simp_all
  then have "atoi_avr (decimal n) = sint (atoi_digits 0 (decimal n))"
    by (simp add: atoi_avr_def cs)
  also have "\<dots> = sint (of_nat n :: 16 word)"
    by (simp add: atoi_digits_decimal)
  also have "\<dots> = int n"
    using assms by (rule sint_of_nat_16)
  finally show ?thesis .
qed

lemma c_string_decimal: "c_string (decimal n) = decimal n"
proof -
  have "c \<noteq> 0" if "c \<in> set (decimal n)" for c
    using decimal_digits [OF that] digit_char(6) by auto
  then show ?thesis by (simp add: c_string_def)
qed

lemma decimal_no_newline: "0x0A \<notin> set (decimal n)"
proof
  assume "0x0A \<in> set (decimal n)"
  then obtain d where "d < 10" "(0x0A :: 8 word) = 0x30 + of_nat d"
    using decimal_digits by blast
  then show False using digit_char(5) by auto
qed

lemma atoi_avr_empty: "atoi_avr [] = 0"
  by (simp add: atoi_avr_def)

lemma atoi_avr_no_number:
  assumes "\<not> isspace c" "\<not> isdigit c" "c \<noteq> 0x2D" "c \<noteq> 0x2B"
  shows "atoi_avr (c # cs) = 0"
  using assms by (simp add: atoi_avr_def)

text \<open>
  With this parser, the lines a terminal sends for a number: \<^verbatim>\<open>s<n>\<close> stores the
  delay \<open>n\<close> for every \<open>n\<close> below 32767, and \<^verbatim>\<open>p<n>\<close> the position \<open>n\<close> for
  every \<open>n\<close> up to 32767.
\<close>

lemma s_decimal_line:
  assumes "rx_ok st" "m_rx_index st = 0" "n < 32767"
  shows "\<exists>st'. receive_bytes atoi_avr (0x73 # decimal n @ [0x0A]) st = Inr st'
           \<and> unat (m_stepper_delay st') = n
           \<and> m_stepper_position st' = m_stepper_position st
           \<and> m_rx_index st' = 0"
proof -
  have len: "length (decimal n) \<le> 5"
    using assms(3) by (intro length_decimal) simp_all
  have parse: "atoi_avr (c_string (decimal n)) = int n"
    using assms(3) by (simp add: c_string_decimal atoi_avr_decimal)
  have "INT16_MIN < int n" "int n < INT16_MAX"
    using assms(3) by (simp_all add: INT16_MIN_def INT16_MAX_def)
  then have keep: "(word_of_int (int n) :: 16 word) \<noteq> word_of_int INT16_MAX"
      "(word_of_int (int n) :: 16 word) \<noteq> word_of_int INT16_MIN"
    by (rule delay_not_sentinel)+
  have "unat (word_of_int (int n) :: 16 word) = n"
    using assms(3) by (simp add: unat_of_nat)
  then show ?thesis
    using s_line_run [OF assms(1,2) decimal_no_newline len, of atoi_avr] parse keep
    by auto
qed

lemma p_decimal_line:
  assumes "rx_ok st" "m_rx_index st = 0" "n \<le> 32767"
  shows "\<exists>st'. receive_bytes atoi_avr (0x70 # decimal n @ [0x0A]) st = Inr st'
           \<and> sint (m_stepper_position st') = int n
           \<and> m_stepper_delay st' = m_stepper_delay st
           \<and> m_rx_index st' = 0"
proof -
  have len: "length (decimal n) \<le> 5"
    using assms(3) by (intro length_decimal) simp_all
  have parse: "atoi_avr (c_string (decimal n)) = int n"
    using assms(3) by (simp add: c_string_decimal atoi_avr_decimal)
  have "sint (word_of_int (int n) :: 16 word) = int n"
    using assms(3) sint_of_nat_16 [of n] by simp
  then show ?thesis
    using p_line_run [OF assms(1,2) decimal_no_newline len, of atoi_avr] parse
    by auto
qed

text \<open>
  A remainder without a number (empty, or starting with a byte that is neither white
  space, a sign nor a digit) parses to 0 with this parser, and the delay stored is 0.
\<close>

lemma s_line_without_number:
  assumes "rx_ok st" "m_rx_index st = 0" "0x0A \<notin> set ds" "length ds \<le> 5"
    and "c_string ds = [] \<or> (\<exists>c cs. c_string ds = c # cs
           \<and> \<not> isspace c \<and> \<not> isdigit c \<and> c \<noteq> 0x2D \<and> c \<noteq> 0x2B)"
  shows "\<exists>st'. receive_bytes atoi_avr (0x73 # ds @ [0x0A]) st = Inr st'
           \<and> m_stepper_delay st' = 0
           \<and> m_stepper_position st' = m_stepper_position st
           \<and> m_rx_index st' = 0"
proof -
  have "atoi_avr (c_string ds) = 0"
    using assms(5) by (auto simp: atoi_avr_empty atoi_avr_no_number)
  then show ?thesis
    using s_line_run [OF assms(1-4), of atoi_avr] by auto
qed

section \<open>The claims\<close>

subsection \<open>Command lines\<close>

text \<open>
  In the theorems on whole lines the interpreter is at the start of a line (cursor 0,
  as at startup and after every newline), the bytes \<open>ds\<close> after the command letter
  hold no newline, and the line fits the buffer with its terminator: at most 6 bytes
  before the newline, the line length the protocol allows. \<open>atoi\<close> is any parser.
\<close>

text \<open>
  Claim C2. A completed \<^verbatim>\<open>s\<close> line whose remainder the parser turns into the
  signed 16-bit minimum or maximum leaves the delay at 0. (The parser of avr-libc
  returns 0 for a remainder without a number, and 0 is stored then.)
\<close>

theorem s_line_sentinel_forces_zero:
  assumes "rx_ok st" "m_rx_index st = 0" "0x0A \<notin> set ds" "length ds \<le> 5"
    and "atoi (c_string ds) = INT16_MIN \<or> atoi (c_string ds) = INT16_MAX"
  shows "\<exists>st'. receive_bytes atoi (0x73 # ds @ [0x0A]) st = Inr st'
           \<and> m_stepper_delay st' = 0
           \<and> m_stepper_position st' = m_stepper_position st
           \<and> m_rx_index st' = 0"
proof -
  from assms(5)
  have "word_of_int (atoi (c_string ds)) = (word_of_int INT16_MAX :: 16 word)
      \<or> word_of_int (atoi (c_string ds)) = (word_of_int INT16_MIN :: 16 word)"
    by auto
  then show ?thesis
    using s_line_run [OF assms(1-4), of atoi] by simp
qed

theorem s_line_sentinel_forces_zero_witness:
  "rx_ok (startup\<lparr>m_stepper_delay := 5\<rparr>)
   \<and> m_rx_index (startup\<lparr>m_stepper_delay := 5\<rparr>) = 0
   \<and> 0x0A \<notin> set [0x33, 0x32, 0x37, 0x36, 0x37 :: 8 word]
   \<and> length [0x33, 0x32, 0x37, 0x36, 0x37 :: 8 word] \<le> 5
   \<and> atoi_avr (c_string [0x33, 0x32, 0x37, 0x36, 0x37]) = INT16_MAX
   \<and> (\<exists>st'. receive_bytes atoi_avr (0x73 # [0x33, 0x32, 0x37, 0x36, 0x37] @ [0x0A])
               (startup\<lparr>m_stepper_delay := 5\<rparr>) = Inr st'
           \<and> m_stepper_delay st' = 0
           \<and> m_stepper_position st' = m_stepper_position (startup\<lparr>m_stepper_delay := 5\<rparr>)
           \<and> m_rx_index st' = 0)"
proof -
  have ok: "rx_ok (startup\<lparr>m_stepper_delay := 5\<rparr>)"
    by (simp add: rx_ok_def startup_def)
  have idx: "m_rx_index (startup\<lparr>m_stepper_delay := 5\<rparr>) = 0"
    by (simp add: startup_def)
  have nl: "0x0A \<notin> set [0x33, 0x32, 0x37, 0x36, 0x37 :: 8 word]"
    by simp
  have len: "length [0x33, 0x32, 0x37, 0x36, 0x37 :: 8 word] \<le> 5"
    by simp
  have parse: "atoi_avr (c_string [0x33, 0x32, 0x37, 0x36, 0x37]) = INT16_MAX"
    by (simp add: atoi_avr_def c_string_def isspace_def isdigit_def INT16_MAX_def)
  from parse have sentinel: "atoi_avr (c_string [0x33, 0x32, 0x37, 0x36, 0x37]) = INT16_MIN
      \<or> atoi_avr (c_string [0x33, 0x32, 0x37, 0x36, 0x37]) = INT16_MAX"
    by (rule disjI2)
  show ?thesis
    using ok idx nl len parse s_line_sentinel_forces_zero [where atoi = atoi_avr, OF ok idx nl len sentinel]
    by (intro conjI)
qed

text \<open>
  Claim C3, as stated, fails: the line \<^verbatim>\<open>s-1\<close> parses to \<open>-1\<close>, inside the signed
  16-bit range and neither of its ends, and the delay stored is 65535.
\<close>

theorem s_line_negative_counterexample:
  "atoi_avr (c_string [0x2D, 0x31]) = - 1
   \<and> receive_bytes atoi_avr [0x73, 0x2D, 0x31, 0x0A] startup =
       Inr \<lparr>m_received = [0x73, 0x2D, 0x31, 0, 0, 0, 0], m_rx_index = 0,
            m_stepper_delay = 65535, m_stepper_position = 0\<rparr>"
  by (simp add: atoi_avr_def c_string_def isspace_def isdigit_def ISR_def Let_def startup_def
      INT16_MAX_def INT16_MIN_def)

text \<open>
  Claim C3, amended. A completed line \<^verbatim>\<open>s<N>\<close> whose remainder parses to \<open>N\<close>,
  strictly between the signed 16-bit minimum and maximum, stores the delay \<open>N\<close> when
  \<open>N\<close> is not negative and \<open>N + 65536\<close> when it is: the delay is an unsigned 16-bit
  object.
\<close>

theorem s_line_sets_delay:
  assumes "rx_ok st" "m_rx_index st = 0" "0x0A \<notin> set ds" "length ds \<le> 5"
    and "atoi (c_string ds) = N" "INT16_MIN < N" "N < INT16_MAX"
  shows "\<exists>st'. receive_bytes atoi (0x73 # ds @ [0x0A]) st = Inr st'
           \<and> uint (m_stepper_delay st') = (if 0 \<le> N then N else N + 65536)
           \<and> m_stepper_position st' = m_stepper_position st
           \<and> m_rx_index st' = 0"
proof -
  have val: "uint (word_of_int N :: 16 word) = (if 0 \<le> N then N else N + 65536)"
    using assms(6,7) by (intro uint_word_of_int_16) simp_all
  show ?thesis
    using s_line_run [OF assms(1-4), of atoi] delay_not_sentinel [OF assms(6,7)] assms(5) val
    by auto
qed

theorem s_line_sets_delay_witness:
  "rx_ok startup \<and> m_rx_index startup = 0
   \<and> 0x0A \<notin> set [0x31, 0x32, 0x33, 0x34 :: 8 word]
   \<and> length [0x31, 0x32, 0x33, 0x34 :: 8 word] \<le> 5
   \<and> atoi_avr (c_string [0x31, 0x32, 0x33, 0x34]) = 1234
   \<and> INT16_MIN < 1234 \<and> 1234 < INT16_MAX
   \<and> (\<exists>st'. receive_bytes atoi_avr (0x73 # [0x31, 0x32, 0x33, 0x34] @ [0x0A]) startup = Inr st'
           \<and> uint (m_stepper_delay st') = 1234
           \<and> m_stepper_position st' = m_stepper_position startup
           \<and> m_rx_index st' = 0)"
proof -
  have ok: "rx_ok startup"
    by (simp add: rx_ok_def startup_def)
  have idx: "m_rx_index startup = 0"
    by (simp add: startup_def)
  have nl: "0x0A \<notin> set [0x31, 0x32, 0x33, 0x34 :: 8 word]"
    by simp
  have len: "length [0x31, 0x32, 0x33, 0x34 :: 8 word] \<le> 5"
    by simp
  have parse: "atoi_avr (c_string [0x31, 0x32, 0x33, 0x34]) = 1234"
    by (simp add: atoi_avr_def c_string_def isspace_def isdigit_def)
  have lo: "INT16_MIN < 1234" and hi: "1234 < INT16_MAX"
    by (simp_all add: INT16_MIN_def INT16_MAX_def)
  show ?thesis
    using ok idx nl len parse lo hi s_line_sets_delay [where atoi = atoi_avr and N = 1234, OF ok idx nl len parse lo hi]
    by simp
qed

text \<open>
  Claim C4. A completed line \<^verbatim>\<open>p<N>\<close> whose remainder parses to \<open>N\<close> stores, read
  as a signed 16-bit value, \<open>N\<close> reduced to 16 bits, which is \<open>N\<close> itself for every
  \<open>N\<close> of the signed 16-bit range, its minimum and maximum included: no value is
  rejected.
\<close>

theorem p_line_sets_position:
  assumes "rx_ok st" "m_rx_index st = 0" "0x0A \<notin> set ds" "length ds \<le> 5"
    and "atoi (c_string ds) = N"
  shows "\<exists>st'. receive_bytes atoi (0x70 # ds @ [0x0A]) st = Inr st'
           \<and> sint (m_stepper_position st') = wrap_int16 N
           \<and> (INT16_MIN \<le> N \<and> N \<le> INT16_MAX \<longrightarrow> sint (m_stepper_position st') = N)
           \<and> m_stepper_delay st' = m_stepper_delay st
           \<and> m_rx_index st' = 0"
proof -
  show ?thesis
    using p_line_run [OF assms(1-4), of atoi] assms(5)
    by (auto simp: sint_word_of_int_16 wrap_int16_id)
qed

theorem p_line_sets_position_witness:
  "rx_ok startup \<and> m_rx_index startup = 0
   \<and> 0x0A \<notin> set [0x33, 0x32, 0x37, 0x36, 0x37 :: 8 word]
   \<and> length [0x33, 0x32, 0x37, 0x36, 0x37 :: 8 word] \<le> 5
   \<and> atoi_avr (c_string [0x33, 0x32, 0x37, 0x36, 0x37]) = 32767
   \<and> (\<exists>st'. receive_bytes atoi_avr (0x70 # [0x33, 0x32, 0x37, 0x36, 0x37] @ [0x0A]) startup = Inr st'
           \<and> sint (m_stepper_position st') = 32767
           \<and> m_stepper_delay st' = m_stepper_delay startup
           \<and> m_rx_index st' = 0)"
proof -
  have ok: "rx_ok startup"
    by (simp add: rx_ok_def startup_def)
  have idx: "m_rx_index startup = 0"
    by (simp add: startup_def)
  have nl: "0x0A \<notin> set [0x33, 0x32, 0x37, 0x36, 0x37 :: 8 word]"
    by simp
  have len: "length [0x33, 0x32, 0x37, 0x36, 0x37 :: 8 word] \<le> 5"
    by simp
  have parse: "atoi_avr (c_string [0x33, 0x32, 0x37, 0x36, 0x37]) = 32767"
    by (simp add: atoi_avr_def c_string_def isspace_def isdigit_def)
  show ?thesis
    using ok idx nl len parse
      p_line_sets_position [where atoi = atoi_avr and N = 32767, OF ok idx nl len parse]
    by (simp add: INT16_MIN_def INT16_MAX_def) blast
qed

text \<open>
  Claim C5. When the newline ends a line that is empty or whose first byte is neither
  \<^verbatim>\<open>s\<close> nor \<^verbatim>\<open>p\<close>, the delay and the position stay as they were and the
  cursor is back at 0. Nothing else can be observed: whatever bytes arrive later, the
  interpreter goes on exactly as from the old state with only the cursor reset (the
  terminator went into a slot that is free again).
\<close>

theorem other_line_discarded:
  assumes "rx_ok st" "unat (m_rx_index st) < 7"
    and "line_of st = [] \<or> (hd (line_of st) \<noteq> 0x73 \<and> hd (line_of st) \<noteq> 0x70)"
  shows "\<exists>st'. ISR atoi 0x0A st = Inr st'
           \<and> m_stepper_delay st' = m_stepper_delay st
           \<and> m_stepper_position st' = m_stepper_position st
           \<and> m_rx_index st' = 0
           \<and> (\<forall>bs. rel_sum (=) (\<lambda>a b. rx_view a = rx_view b)
                  (receive_bytes atoi bs st') (receive_bytes atoi bs (st\<lparr>m_rx_index := 0\<rparr>)))"
proof -
  let ?st' = "st\<lparr>m_received := (m_received st)[unat (m_rx_index st) := 0], m_rx_index := 0\<rparr>"
  have step: "ISR atoi 0x0A st = Inr ?st'"
    using assms by (rule ISR_newline_other)
  have same: "rx_same ?st' (st\<lparr>m_rx_index := 0\<rparr>)"
    using assms(1) by (simp add: rx_same_def rx_ok_def rx_view_def line_of_def)
  have "rel_sum (=) (\<lambda>a b. rx_view a = rx_view b)
          (receive_bytes atoi bs ?st') (receive_bytes atoi bs (st\<lparr>m_rx_index := 0\<rparr>))" for bs
    using receive_bytes_rx_same [OF same, of atoi bs]
    by (rule sum.rel_mono_strong) (simp_all add: rx_same_def)
  with step show ?thesis by simp
qed

theorem other_line_discarded_witness:
  "rx_ok \<lparr>m_received = [0x78, 0x31, 0x32, 0, 0, 0, 0], m_rx_index = 2,
          m_stepper_delay = 5, m_stepper_position = 9\<rparr>
   \<and> (\<exists>st'. ISR atoi_avr 0x0A \<lparr>m_received = [0x78, 0x31, 0x32, 0, 0, 0, 0], m_rx_index = 2,
                                  m_stepper_delay = 5, m_stepper_position = 9\<rparr> = Inr st'
           \<and> m_stepper_delay st' = 5
           \<and> m_stepper_position st' = 9
           \<and> m_rx_index st' = 0
           \<and> (\<forall>bs. rel_sum (=) (\<lambda>a b. rx_view a = rx_view b)
                  (receive_bytes atoi_avr bs st')
                  (receive_bytes atoi_avr bs
                     \<lparr>m_received = [0x78, 0x31, 0x32, 0, 0, 0, 0], m_rx_index = 0,
                      m_stepper_delay = 5, m_stepper_position = 9\<rparr>)))"
proof -
  let ?st = "\<lparr>m_received = [0x78, 0x31, 0x32, 0, 0, 0, 0], m_rx_index = 2,
              m_stepper_delay = 5, m_stepper_position = 9\<rparr> :: uart_state"
  have ok: "rx_ok ?st"
    by (simp add: rx_ok_def)
  have idx: "unat (m_rx_index ?st) < 7"
    by simp
  have first: "line_of ?st = [] \<or> (hd (line_of ?st) \<noteq> 0x73 \<and> hd (line_of ?st) \<noteq> 0x70)"
    by (simp add: line_of_def)
  show ?thesis
    using ok other_line_discarded [OF ok idx first, of atoi_avr]
    by simp
qed

text \<open>
  Claim C9, as stated, fails at 7 bytes: the 7 bytes of the line \<^verbatim>\<open>s123456\<close> are
  appended at the indices 0 to 6, all inside the buffer. The store outside the buffer
  is the one of the terminator, at index 7, when the newline arrives.
\<close>

theorem seven_byte_line_counterexample:
  "receive_bytes atoi_avr [0x73, 0x31, 0x32, 0x33, 0x34, 0x35, 0x36] startup =
     Inr \<lparr>m_received = [0x73, 0x31, 0x32, 0x33, 0x34, 0x35, 0x36], m_rx_index = 7,
          m_stepper_delay = 0, m_stepper_position = 0\<rparr>
   \<and> receive_bytes atoi_avr [0x73, 0x31, 0x32, 0x33, 0x34, 0x35, 0x36, 0x0A] startup =
       Inl (Terminator_Out_Of_Bounds 7)"
  by (simp add: ISR_def Let_def startup_def)

text \<open>
  Claim C9, amended. No store checks the cursor against the capacity. From the start
  of a line, a line of 8 or more bytes before its newline makes the byte-append store
  at index 7, outside the 7-byte buffer; a line of exactly 7 bytes is appended inside
  the buffer, and the terminator store at the newline is the one at index 7.
\<close>

theorem long_line_out_of_bounds:
  assumes "rx_ok st" "m_rx_index st = 0" "0x0A \<notin> set bs"
  shows "(8 \<le> length bs \<longrightarrow> receive_bytes atoi bs st = Inl (Append_Out_Of_Bounds 7))
       \<and> (length bs = 7 \<longrightarrow>
            (\<exists>st'. receive_bytes atoi bs st = Inr st' \<and> unat (m_rx_index st') = 7)
            \<and> receive_bytes atoi (bs @ [0x0A]) st = Inl (Terminator_Out_Of_Bounds 7))"
proof (intro conjI impI)
  assume len: "8 \<le> length bs"
  have nl: "0x0A \<notin> set (take 7 bs)" using assms(3) by (auto dest: in_set_takeD)
  have "length (take 7 bs) = 7" using len by simp
  then obtain s1 where s1: "receive_bytes atoi (take 7 bs) st = Inr s1" "unat (m_rx_index s1) = 7"
    using receive_line [OF assms(1,2) nl, of atoi] by auto
  have "bs = take 7 bs @ bs ! 7 # drop (Suc 7) bs"
    using len by (intro id_take_nth_drop) simp
  then have split: "bs = take 7 bs @ bs ! 7 # drop 8 bs"
    by simp
  have "bs ! 7 \<in> set bs" using len by simp
  then have "bs ! 7 \<noteq> 0x0A" using assms(3) by auto
  then have "ISR atoi (bs ! 7) s1 = Inl (Append_Out_Of_Bounds 7)"
    using s1(2) by (simp add: ISR_def Let_def)
  then have "receive_bytes atoi (take 7 bs @ bs ! 7 # drop 8 bs) st = Inl (Append_Out_Of_Bounds 7)"
    by (simp add: receive_bytes_append s1(1))
  with split show "receive_bytes atoi bs st = Inl (Append_Out_Of_Bounds 7)" by simp
next
  assume len: "length bs = 7"
  obtain s1 where s1: "receive_bytes atoi bs st = Inr s1" "unat (m_rx_index s1) = 7"
    using receive_line [OF assms, of atoi] len by auto
  then show "\<exists>st'. receive_bytes atoi bs st = Inr st' \<and> unat (m_rx_index st') = 7" by blast
  have "ISR atoi 0x0A s1 = Inl (Terminator_Out_Of_Bounds 7)"
    using s1(2) by (simp add: ISR_def Let_def)
  then show "receive_bytes atoi (bs @ [0x0A]) st = Inl (Terminator_Out_Of_Bounds 7)"
    by (simp add: receive_bytes_append s1(1))
qed

theorem long_line_out_of_bounds_witness:
  "rx_ok startup \<and> m_rx_index startup = 0
   \<and> 0x0A \<notin> set [0x70, 0x31, 0x32, 0x33, 0x34, 0x35, 0x36, 0x37 :: 8 word]
   \<and> 8 \<le> length [0x70, 0x31, 0x32, 0x33, 0x34, 0x35, 0x36, 0x37 :: 8 word]
   \<and> receive_bytes atoi_avr [0x70, 0x31, 0x32, 0x33, 0x34, 0x35, 0x36, 0x37] startup =
       Inl (Append_Out_Of_Bounds 7)"
proof -
  have ok: "rx_ok startup"
    by (simp add: rx_ok_def startup_def)
  have idx: "m_rx_index startup = 0"
    by (simp add: startup_def)
  have nl: "0x0A \<notin> set [0x70, 0x31, 0x32, 0x33, 0x34, 0x35, 0x36, 0x37 :: 8 word]"
    by simp
  show ?thesis
    using ok idx nl long_line_out_of_bounds [OF ok idx nl, of atoi_avr]
    by simp
qed

subsection \<open>The foreground loop\<close>

text \<open>
  Claim C1, as stated, fails when the difference leaves the signed 16-bit range: with
  the previous position \<open>-1\<close> (\<open>0xFFFF\<close>) and the target 32767 (\<open>0x7FFF\<close>) the
  target is the larger one, and the engine drives 32768 cycles of the
  counter-clockwise sequence, not 32768 clockwise ones.
\<close>

theorem main_loop_body_overflow_counterexample:
  "sint (0xFFFF :: 16 word) < sint (0x7FFF :: 16 word)
   \<and> trace (main_loop_body
        \<lparr>m_received = [0, 0, 0, 0, 0, 0, 0], m_rx_index = 0,
         m_stepper_delay = 0, m_stepper_position = 0x7FFF\<rparr>
        \<lparr>previous_position = 0xFFFF, trace = []\<rparr>)
       = concat (replicate 32768 (cycle seq_ccw 0))
   \<and> trace (main_loop_body
        \<lparr>m_received = [0, 0, 0, 0, 0, 0, 0], m_rx_index = 0,
         m_stepper_delay = 0, m_stepper_position = 0x7FFF\<rparr>
        \<lparr>previous_position = 0xFFFF, trace = []\<rparr>)
       \<noteq> concat (replicate (nat (sint (0x7FFF :: 16 word) - sint (0xFFFF :: 16 word)))
                  (cycle seq_cw 0))"
proof -
  have n: "(32768 :: nat) = Suc 32767"
    by simp
  have ccw: "hd (concat (replicate 32768 (cycle seq_ccw 0))) = Port_C 0x9"
    by (simp only: n replicate.simps concat.simps) (simp add: cycle_def hold_def seq_ccw_def)
  have cw: "hd (concat (replicate 32768 (cycle seq_cw 0))) = Port_C 0x1"
    by (simp only: n replicate.simps concat.simps) (simp add: cycle_def hold_def seq_cw_def)
  have differ: "concat (replicate 32768 (cycle seq_ccw 0)) \<noteq> concat (replicate 32768 (cycle seq_cw 0))"
  proof
    assume "concat (replicate 32768 (cycle seq_ccw 0)) = concat (replicate 32768 (cycle seq_cw 0))"
    then have "hd (concat (replicate 32768 (cycle seq_ccw 0))) = hd (concat (replicate 32768 (cycle seq_cw 0)))"
      by (rule arg_cong)
    then show False
      by (simp only: ccw cw) simp
  qed
  have d: "sint ((0x7FFF :: 16 word) - 0xFFFF) = - 32768"
    by simp
  have run: "trace (main_loop_body
        \<lparr>m_received = [0, 0, 0, 0, 0, 0, 0], m_rx_index = 0,
         m_stepper_delay = 0, m_stepper_position = 0x7FFF\<rparr>
        \<lparr>previous_position = 0xFFFF, trace = []\<rparr>)
       = concat (replicate 32768 (cycle seq_ccw 0))"
    by (simp add: main_loop_body_eq d)
  have amount: "nat (sint (0x7FFF :: 16 word) - sint (0xFFFF :: 16 word)) = 32768"
    by simp
  have order: "sint (0xFFFF :: 16 word) < sint (0x7FFF :: 16 word)"
    by simp
  show ?thesis
    using order run differ by (simp only: amount) simp
qed

text \<open>
  Claim C1, amended. In an iteration with previous position \<open>P0\<close> and copied target
  \<open>P1\<close> whose difference \<open>P1 - P0\<close> lies in the signed 16-bit range: if \<open>P1 > P0\<close>
  the engine emits exactly \<open>P1 - P0\<close> full cycles of the clockwise sequence, if
  \<open>P1 < P0\<close> exactly \<open>P0 - P1\<close> full cycles of the counter-clockwise one, if they
  are equal nothing; a cycle is 8 stores to the port; and the previous position is
  \<open>P1\<close> afterwards in every case.
\<close>

theorem main_loop_body_in_range:
  assumes "INT16_MIN \<le> sint (m_stepper_position st) - sint (previous_position m)"
    and "sint (m_stepper_position st) - sint (previous_position m) \<le> INT16_MAX"
  shows "(sint (previous_position m) < sint (m_stepper_position st) \<longrightarrow>
            trace (main_loop_body st m) = trace m @
              concat (replicate (nat (sint (m_stepper_position st) - sint (previous_position m)))
                (cycle seq_cw (m_stepper_delay st))))
       \<and> (sint (m_stepper_position st) < sint (previous_position m) \<longrightarrow>
            trace (main_loop_body st m) = trace m @
              concat (replicate (nat (sint (previous_position m) - sint (m_stepper_position st)))
                (cycle seq_ccw (m_stepper_delay st))))
       \<and> (sint (m_stepper_position st) = sint (previous_position m) \<longrightarrow>
            trace (main_loop_body st m) = trace m)
       \<and> length (port_writes (trace (main_loop_body st m))) =
            length (port_writes (trace m))
            + 8 * nat \<bar>sint (m_stepper_position st) - sint (previous_position m)\<bar>
       \<and> previous_position (main_loop_body st m) = m_stepper_position st"
proof -
  let ?k = "sint (m_stepper_position st) - sint (previous_position m)"
  have d: "sint (m_stepper_position st - previous_position m) = ?k"
    using assms by (simp add: sint_sub_16 wrap_int16_id)
  have len: "length (concat (replicate n seq)) = 8 * n" if "length seq = SEQ_SIZE" for n and seq :: "8 word list"
    using that by (induction n) (simp_all add: SEQ_SIZE_def)
  have writes: "length (port_writes (trace (main_loop_body st m))) =
      length (port_writes (trace m)) + 8 * nat \<bar>?k\<bar>"
    by (simp add: main_loop_body_eq d port_writes_append port_writes_cycles len length_seq)
  show ?thesis
    using writes by (simp add: main_loop_body_eq d)
qed

theorem main_loop_body_in_range_witness:
  "INT16_MIN \<le> sint (3 :: 16 word) - sint (1 :: 16 word)
   \<and> sint (3 :: 16 word) - sint (1 :: 16 word) \<le> INT16_MAX
   \<and> trace (main_loop_body
        \<lparr>m_received = [0, 0, 0, 0, 0, 0, 0], m_rx_index = 0,
         m_stepper_delay = 1, m_stepper_position = 3\<rparr>
        \<lparr>previous_position = 1, trace = []\<rparr>)
       = concat (replicate 2 (cycle seq_cw 1))
   \<and> length (port_writes (trace (main_loop_body
        \<lparr>m_received = [0, 0, 0, 0, 0, 0, 0], m_rx_index = 0,
         m_stepper_delay = 1, m_stepper_position = 3\<rparr>
        \<lparr>previous_position = 1, trace = []\<rparr>))) = 16
   \<and> previous_position (main_loop_body
        \<lparr>m_received = [0, 0, 0, 0, 0, 0, 0], m_rx_index = 0,
         m_stepper_delay = 1, m_stepper_position = 3\<rparr>
        \<lparr>previous_position = 1, trace = []\<rparr>) = 3"
proof -
  let ?st = "\<lparr>m_received = [0, 0, 0, 0, 0, 0, 0], m_rx_index = 0,
              m_stepper_delay = 1, m_stepper_position = 3\<rparr> :: uart_state"
  let ?m = "\<lparr>previous_position = 1, trace = []\<rparr> :: main_state"
  have lo: "INT16_MIN \<le> sint (m_stepper_position ?st) - sint (previous_position ?m)"
    by (simp add: INT16_MIN_def)
  have hi: "sint (m_stepper_position ?st) - sint (previous_position ?m) \<le> INT16_MAX"
    by (simp add: INT16_MAX_def)
  show ?thesis
    using lo hi main_loop_body_in_range [OF lo hi]
    by auto
qed

text \<open>
  Claim C6. The values stored to the port in one iteration are whole repetitions of
  one table, in its order: of \<open>[0x1, 0x3, 0x2, 0x6, 0x4, 0xc, 0x8, 0x9]\<close> when the
  engine rotates clockwise (positive delta), of
  \<open>[0x9, 0x8, 0xc, 0x4, 0x6, 0x2, 0x3, 0x1]\<close> when it rotates counter-clockwise.
\<close>

theorem coil_sequence_fidelity:
  "port_writes (trace (main_loop_body st m)) =
     port_writes (trace m) @
     concat (replicate (nat \<bar>sint (m_stepper_position st - previous_position m)\<bar>)
       (if 0 < sint (m_stepper_position st - previous_position m)
        then [0x1, 0x3, 0x2, 0x6, 0x4, 0xc, 0x8, 0x9]
        else [0x9, 0x8, 0xc, 0x4, 0x6, 0x2, 0x3, 0x1]))"
  by (simp add: main_loop_body_eq port_writes_append port_writes_cycles seq_cw_def seq_ccw_def)

text \<open>
  Claim C7. \<^verbatim>\<open>my_delay_us\<close> returns for every \<open>D\<close>, after exactly \<open>D\<close> calls of
  the 10 microsecond primitive and nothing else (none when \<open>D\<close> is 0); and the events
  that an iteration adds are its port stores, each followed by exactly \<open>D\<close> such
  calls, for the copied delay \<open>D\<close>.
\<close>

theorem hold_time:
  "my_delay_us D tr = tr @ replicate (unat D) (Delay_us 10)
   \<and> my_delay_us 0 tr = tr
   \<and> drop (length (trace m)) (trace (main_loop_body st m)) =
       concat (map (\<lambda>w. Port_C w # replicate (unat (m_stepper_delay st)) (Delay_us 10))
         (port_writes (drop (length (trace m)) (trace (main_loop_body st m)))))"
proof -
  let ?new = "drop (length (trace m)) (trace (main_loop_body st m))"
  obtain ws where new: "?new = concat (map (hold (m_stepper_delay st)) ws)"
    by (simp add: main_loop_body_eq cycles_as_holds)
  then have "port_writes ?new = ws"
    by (simp only: port_writes_holds)
  with new have "?new = concat (map (hold (m_stepper_delay st)) (port_writes ?new))"
    by simp
  moreover have "hold (m_stepper_delay st) =
      (\<lambda>w. Port_C w # replicate (unat (m_stepper_delay st)) (Delay_us 10))"
    by (rule ext) (simp add: hold_def)
  ultimately show ?thesis
    by (simp add: my_delay_us_eq)
qed

text \<open>
  Claim C10. The delta the engine acts on is \<open>P1 - P0\<close> reduced into the signed
  16-bit range modulo \<open>2 ^ 16\<close>: the direction is the sign of the reduced value and
  the number of cycles its magnitude, whatever the true difference is.
\<close>

theorem position_delta_wraps:
  "sint (m_stepper_position st - previous_position m) =
     wrap_int16 (sint (m_stepper_position st) - sint (previous_position m))
   \<and> main_loop_body st m =
       (let w = wrap_int16 (sint (m_stepper_position st) - sint (previous_position m))
        in \<lparr>previous_position = m_stepper_position st,
            trace = trace m @
              concat (replicate (nat \<bar>w\<bar>)
                (cycle (if 0 < w then seq_cw else seq_ccw) (m_stepper_delay st)))\<rparr>)"
  by (simp add: main_loop_body_eq sint_sub_16 Let_def)

end
